theory Spec2Isabelle
  imports Main
begin

section \<open>Tic-tac-toe: the helpers and the session of \<open>App.js\<close>\<close>

subsection \<open>Cells, boards and JavaScript array access\<close>

text \<open>
  A cell of the board holds \<open>'X'\<close>, \<open>'O'\<close> or \<open>null\<close>. The only things the code
  does with a cell are a truthiness test (\<open>board[a] &&\<close>, \<open>!board[i]\<close>, \<open>b[move]\<close>), a
  strict comparison with another cell guarded by such a test, and \<open>== null\<close>. A read past
  the end of an array gives \<open>undefined\<close>, which is falsy, is \<open>== null\<close> and is not
  \<open>===\<close> to a mark: in each of these uses it behaves as \<open>null\<close> does, and both are
  \<open>None\<close> here. The marks are \<open>X_mark\<close> and \<open>O_mark\<close> (\<open>O\<close> is the
  composition of relations in HOL).

  \<open>calculateWinner\<close>, \<open>availableMoves\<close> and \<open>aiMove\<close> read an array through its
  length and its elements at natural-number positions only, and copy it with a spread
  before they write: they are functions of the list of cells.
\<close>

datatype mark = X_mark | O_mark

type_synonym cell = "mark option"

type_synonym board = "cell list"

text \<open>\<open>board[i]\<close>: the cell, \<open>undefined\<close> past the end.\<close>

definition cellAt :: "board \<Rightarrow> nat \<Rightarrow> cell" where
  "cellAt b i = (if i < length b then b ! i else None)"

text \<open>\<open>xs[k]\<close> on an array of numbers: \<open>None\<close> is \<open>undefined\<close>.\<close>

definition itemAt :: "nat list \<Rightarrow> nat \<Rightarrow> nat option" where
  "itemAt xs k = (if k < length xs then Some (xs ! k) else None)"

text \<open>
  The cells after \<open>copy[i] = p\<close> on a fresh copy: an assignment inside the array
  replaces the cell; one past the end grows the array, leaving holes (read as
  \<open>undefined\<close>) in between, as long as \<open>i\<close> is an array index, that is below
  \<open>2^32 - 1 = 4294967295\<close>; from there on the assignment makes a plain property and the
  cells stay as they are. (An array has fewer than \<open>2^32\<close> cells, so a position inside
  one is an array index.)
\<close>

definition setCell :: "board \<Rightarrow> nat \<Rightarrow> mark \<Rightarrow> board" where
  "setCell b i p =
     (if i < length b then b[i := Some p]
      else if i < 4294967295 then b @ replicate (i - length b) None @ [Some p]
      else b)"

subsection \<open>\<open>LINES\<close> and \<open>calculateWinner\<close>\<close>

definition LINES :: "(nat \<times> nat \<times> nat) list" where
  "LINES =
     [(0, 1, 2), (3, 4, 5), (6, 7, 8),
      (0, 3, 6), (1, 4, 7), (2, 5, 8),
      (0, 4, 8), (2, 4, 6)]"

record win_result =
  winner :: "mark option"
  line :: "nat list option"

text \<open>The \<open>for (const [a, b, c] of LINES)\<close> loop, over the lines still to be scanned.\<close>

fun scanLines :: "board \<Rightarrow> (nat \<times> nat \<times> nat) list \<Rightarrow> win_result" where
  "scanLines b [] = \<lparr>winner = None, line = None\<rparr>"
| "scanLines b ((i, j, k) # rest) =
     (if cellAt b i \<noteq> None \<and> cellAt b i = cellAt b j \<and> cellAt b i = cellAt b k
      then \<lparr>winner = cellAt b i, line = Some [i, j, k]\<rparr>
      else scanLines b rest)"

definition calculateWinner :: "board \<Rightarrow> win_result" where
  "calculateWinner b = scanLines b LINES"

text \<open>The test of the loop's \<open>if\<close>, on one line.\<close>

definition lineWins :: "board \<Rightarrow> nat \<times> nat \<times> nat \<Rightarrow> bool" where
  "lineWins b ln =
     (case ln of (i, j, k) \<Rightarrow>
        cellAt b i \<noteq> None \<and> cellAt b i = cellAt b j \<and> cellAt b i = cellAt b k)"

text \<open>
  The specification's words, to compare the code with: a line is complete for a mark
  when all three of its cells hold that mark; the index triple of a line.
\<close>

definition fullLine :: "board \<Rightarrow> mark \<Rightarrow> nat \<times> nat \<times> nat \<Rightarrow> bool" where
  "fullLine b p ln =
     (case ln of (i, j, k) \<Rightarrow> b ! i = Some p \<and> b ! j = Some p \<and> b ! k = Some p)"

definition indices :: "nat \<times> nat \<times> nat \<Rightarrow> nat list" where
  "indices ln = (case ln of (i, j, k) \<Rightarrow> [i, j, k])"

subsection \<open>\<open>availableMoves\<close> and \<open>aiMove\<close>\<close>

definition availableMoves :: "board \<Rightarrow> nat list" where
  "availableMoves b = filter (\<lambda>i. cellAt b i = None) [0..<length b]"

text \<open>
  The two \<open>for (const m of moves)\<close> loops of \<open>aiMove\<close> differ in the mark they place
  only: the first move after which \<open>calculateWinner\<close> reports that mark.
\<close>

fun tryMoves :: "board \<Rightarrow> mark \<Rightarrow> nat list \<Rightarrow> nat option" where
  "tryMoves b p [] = None"
| "tryMoves b p (m # ms) =
     (if winner (calculateWinner (setCell b m p)) = Some p then Some m
      else tryMoves b p ms)"

text \<open>
  \<open>Math.floor(Math.random() * n)\<close> is the parameter \<open>pick\<close>, applied to \<open>n\<close>:
  \<open>Math.random()\<close> lies in \<open>[0, 1)\<close>, so the code relies on \<open>pick n < n\<close> for \<open>0 < n\<close>.
  The result \<open>None\<close> is \<open>null\<close> (or \<open>undefined\<close>: the caller tests \<open>move != null\<close>).
\<close>

definition aiMove :: "(nat \<Rightarrow> nat) \<Rightarrow> board \<Rightarrow> mark \<Rightarrow> nat option" where
  "aiMove pick b aiPlayer =
     (let human = (if aiPlayer = X_mark then O_mark else X_mark);
          moves = availableMoves b
      in if length moves = 0 then None
         else case tryMoves b aiPlayer moves of
           Some m \<Rightarrow> Some m
         | None \<Rightarrow>
            (case tryMoves b human moves of
               Some m \<Rightarrow> Some m
             | None \<Rightarrow>
                if cellAt b 4 = None then Some 4
                else let corners = filter (\<lambda>i. cellAt b i = None) [0, 2, 6, 8]
                  in if length corners \<noteq> 0 then itemAt corners (pick (length corners))
                     else let sides = filter (\<lambda>i. cellAt b i = None) [1, 3, 5, 7]
                       in if length sides \<noteq> 0 then itemAt sides (pick (length sides))
                          else itemAt moves 0))"

definition isDraw :: "board \<Rightarrow> bool" where
  "isDraw b = (winner (calculateWinner b) = None \<and> length (availableMoves b) = 0)"

subsection \<open>The session: the state of \<open>App\<close> and its handlers\<close>

text \<open>
  \<open>handlePlay\<close> reads and writes the array held in the state under the index it is
  given, an integer that nothing restricts to the nine squares. An integer \<open>i\<close> with
  \<open>0 \<le> i < 2^32 - 1\<close> is an array index and names a cell; any other integer is the key
  of a plain property of the array object, which has no effect on its length or cells.
  An array is therefore its cells and its plain properties under integer keys; here
  these only ever hold marks.
\<close>

record js_array =
  cells :: "cell list"
  props :: "int \<rightharpoonup> mark"

definition isArrayIndex :: "int \<Rightarrow> bool" where
  "isArrayIndex i = (0 \<le> i \<and> i < 4294967295)"

text \<open>\<open>a[i]\<close>.\<close>

definition arrayGet :: "js_array \<Rightarrow> int \<Rightarrow> cell" where
  "arrayGet a i = (if isArrayIndex i then cellAt (cells a) (nat i) else props a i)"

text \<open>\<open>[...a]\<close>: a new array of the same cells, without the plain properties.\<close>

definition spread :: "js_array \<Rightarrow> js_array" where
  "spread a = \<lparr>cells = cells a, props = Map.empty\<rparr>"

text \<open>\<open>a[i] = p\<close>.\<close>

definition arraySet :: "js_array \<Rightarrow> int \<Rightarrow> mark \<Rightarrow> js_array" where
  "arraySet a i p =
     (if isArrayIndex i then a\<lparr>cells := setCell (cells a) (nat i) p\<rparr>
      else a\<lparr>props := (props a)(i \<mapsto> p)\<rparr>)"

datatype game_mode = PVP | AI

record session =
  mode :: game_mode
  board :: js_array
  xIsNext :: bool
  aiPlays :: mark

text \<open>\<open>Array(9).fill(null)\<close> is \<open>\<lparr>cells = replicate 9 None, props = Map.empty\<rparr>\<close>.\<close>

definition initial :: session where
  "initial =
     \<lparr>mode = AI, board = \<lparr>cells = replicate 9 None, props = Map.empty\<rparr>,
      xIsNext = True, aiPlays = O_mark\<rparr>"

definition currentPlayer :: "session \<Rightarrow> mark" where
  "currentPlayer s = (if xIsNext s then X_mark else O_mark)"

text \<open>The status shown by \<open>statusMessage\<close>: a winner, a draw, or whose turn it is.\<close>

datatype status = InProgress | Won mark | Draw

definition status :: "session \<Rightarrow> status" where
  "status s =
     (case winner (calculateWinner (cells (board s))) of
        Some p \<Rightarrow> Won p
      | None \<Rightarrow> if isDraw (cells (board s)) then Draw else InProgress)"

definition handlePlay :: "int \<Rightarrow> session \<Rightarrow> session" where
  "handlePlay index s =
     (if winner (calculateWinner (cells (board s))) \<noteq> None \<or> isDraw (cells (board s))
      then s
      else if arrayGet (board s) index \<noteq> None then s
      else if mode s = AI \<and> currentPlayer s = aiPlays s then s
      else s\<lparr>board := arraySet (spread (board s)) index (currentPlayer s),
              xIsNext := \<not> xIsNext s\<rparr>)"

definition resetGame :: "session \<Rightarrow> session" where
  "resetGame s =
     s\<lparr>board := \<lparr>cells = replicate 9 None, props = Map.empty\<rparr>, xIsNext := True\<rparr>"

definition restartAndSwap :: "session \<Rightarrow> session" where
  "restartAndSwap s =
     s\<lparr>board := \<lparr>cells = replicate 9 None, props = Map.empty\<rparr>,
       xIsNext := \<not> xIsNext s\<rparr>"

definition toggleAiSide :: "session \<Rightarrow> session" where
  "toggleAiSide s =
     s\<lparr>aiPlays := (if aiPlays s = X_mark then O_mark else X_mark),
       board := \<lparr>cells = replicate 9 None, props = Map.empty\<rparr>, xIsNext := True\<rparr>"

text \<open>The \<open>setMode\<close> handed to \<open>ModeToggle\<close>: \<open>(m) => { setMode(m); resetGame(); }\<close>.\<close>

definition setModeAndReset :: "game_mode \<Rightarrow> session \<Rightarrow> session" where
  "setModeAndReset m s = resetGame (s\<lparr>mode := m\<rparr>)"

text \<open>The \<open>onClick\<close> of the chip of mark \<open>p\<close>: \<open>if (aiPlays !== p) toggleAiSide()\<close>.\<close>

definition aiSideChip :: "mark \<Rightarrow> session \<Rightarrow> session" where
  "aiSideChip p s = (if aiPlays s \<noteq> p then toggleAiSide s else s)"

text \<open>
  The callback given to \<open>setTimeout\<close>. It closes over the \<open>board\<close> and \<open>aiPlays\<close> of the
  render that scheduled it (\<open>b0\<close>, \<open>ai0\<close>); the two updater functions run on the state
  current when the update applies (\<open>s\<close>).
\<close>

definition aiTimeout :: "(nat \<Rightarrow> nat) \<Rightarrow> board \<Rightarrow> mark \<Rightarrow> session \<Rightarrow> session" where
  "aiTimeout pick b0 ai0 s =
     (case aiMove pick b0 ai0 of
        None \<Rightarrow> s
      | Some move \<Rightarrow>
          s\<lparr>board := (if arrayGet (board s) (int move) \<noteq> None then board s
                       else arraySet (spread (board s)) (int move) ai0),
            xIsNext := \<not> xIsNext s\<rparr>)"

text \<open>
  The AI turn effect followed by its timer: the guards of the effect, then the callback
  on the state that scheduled it (a change of that state cancels the timer).
\<close>

definition aiTurn :: "(nat \<Rightarrow> nat) \<Rightarrow> session \<Rightarrow> session" where
  "aiTurn pick s =
     (if mode s \<noteq> AI then s
      else if winner (calculateWinner (cells (board s))) \<noteq> None \<or> isDraw (cells (board s))
      then s
      else if currentPlayer s \<noteq> aiPlays s then s
      else aiTimeout pick (cells (board s)) (aiPlays s) s)"

text \<open>Move requests and computer turns, in the order they reach the session.\<close>

datatype event = ApplyMove int | ComputerTurn

fun step :: "(nat \<Rightarrow> nat) \<Rightarrow> session \<Rightarrow> event \<Rightarrow> session" where
  "step pick s (ApplyMove index) = handlePlay index s"
| "step pick s ComputerTurn = aiTurn pick s"

definition run :: "(nat \<Rightarrow> nat) \<Rightarrow> session \<Rightarrow> event list \<Rightarrow> session" where
  "run pick s evs = foldl (step pick) s evs"

section \<open>Properties\<close>

subsection \<open>The winner of a board\<close>

lemma scanLines_find:
  "scanLines b ls =
     (case find (lineWins b) ls of
        None \<Rightarrow> \<lparr>winner = None, line = None\<rparr>
      | Some ln \<Rightarrow> \<lparr>winner = cellAt b (fst ln), line = Some (indices ln)\<rparr>)"
  by (induction b ls rule: scanLines.induct) (auto simp: lineWins_def indices_def)

lemma LINES_in_range: "ln \<in> set LINES \<Longrightarrow> fst ln < 9 \<and> fst (snd ln) < 9 \<and> snd (snd ln) < 9"
  by (auto simp: LINES_def)

lemma lineWins_fullLine:
  assumes "length b = 9" and "ln \<in> set LINES"
  shows "lineWins b ln \<longleftrightarrow> (\<exists>q. fullLine b q ln)"
    and "lineWins b ln \<and> cellAt b (fst ln) = Some p \<longleftrightarrow> fullLine b p ln"
  using assms LINES_in_range [OF assms(2)]
  by (cases ln; auto simp: lineWins_def fullLine_def cellAt_def)+

lemma calculateWinner_Some_iff:
  assumes "length b = 9"
  shows "calculateWinner b = \<lparr>winner = Some p, line = Some l\<rparr> \<longleftrightarrow>
     (\<exists>n<length LINES. l = indices (LINES ! n) \<and> fullLine b p (LINES ! n)
        \<and> (\<forall>n'<n. \<forall>q. \<not> fullLine b q (LINES ! n')))"
    (is "?L \<longleftrightarrow> ?R")
proof
  assume ?L
  then obtain ln where f: "find (lineWins b) LINES = Some ln"
    and w: "cellAt b (fst ln) = Some p" and l: "l = indices ln"
    by (auto simp: calculateWinner_def scanLines_find split: option.splits)
  from f obtain n where n: "n < length LINES" "lineWins b (LINES ! n)" "ln = LINES ! n"
    "\<forall>n'<n. \<not> lineWins b (LINES ! n')"
    by (auto simp: find_Some_iff)
  have "fullLine b p (LINES ! n)"
    using lineWins_fullLine(2) [OF assms, of "LINES ! n" p] n w by simp
  moreover have "\<forall>n'<n. \<forall>q. \<not> fullLine b q (LINES ! n')"
  proof (intro allI impI)
    fix n' q assume "n' < n"
    with n have "\<not> lineWins b (LINES ! n')" and "LINES ! n' \<in> set LINES" by simp_all
    then show "\<not> fullLine b q (LINES ! n')"
      using lineWins_fullLine(1) [OF assms] by blast
  qed
  ultimately show ?R using n l by blast
next
  assume ?R
  then obtain n where n: "n < length LINES" "l = indices (LINES ! n)"
    "fullLine b p (LINES ! n)" "\<forall>n'<n. \<forall>q. \<not> fullLine b q (LINES ! n')"
    by blast
  have win: "lineWins b (LINES ! n)" "cellAt b (fst (LINES ! n)) = Some p"
    using lineWins_fullLine(2) [OF assms, of "LINES ! n" p] n by simp_all
  have "\<forall>n'<n. \<not> lineWins b (LINES ! n')"
  proof (intro allI impI)
    fix n' assume "n' < n"
    with n have "\<forall>q. \<not> fullLine b q (LINES ! n')" and "LINES ! n' \<in> set LINES" by simp_all
    then show "\<not> lineWins b (LINES ! n')"
      using lineWins_fullLine(1) [OF assms] by blast
  qed
  with n win have "find (lineWins b) LINES = Some (LINES ! n)"
    by (auto simp: find_Some_iff)
  with win n show ?L
    by (simp add: calculateWinner_def scanLines_find)
qed

lemma calculateWinner_None_iff:
  assumes "length b = 9"
  shows "calculateWinner b = \<lparr>winner = None, line = None\<rparr> \<longleftrightarrow>
     (\<forall>ln\<in>set LINES. \<forall>q. \<not> fullLine b q ln)"
proof -
  have "calculateWinner b = \<lparr>winner = None, line = None\<rparr> \<longleftrightarrow> find (lineWins b) LINES = None"
    by (auto simp: calculateWinner_def scanLines_find split: option.splits)
  also have "\<dots> \<longleftrightarrow> (\<forall>ln\<in>set LINES. \<not> lineWins b ln)"
    by (auto simp: find_None_iff)
  also have "\<dots> \<longleftrightarrow> (\<forall>ln\<in>set LINES. \<forall>q. \<not> fullLine b q ln)"
    using lineWins_fullLine(1) [OF assms] by blast
  finally show ?thesis .
qed

lemma calculateWinner_shape:
  "(\<exists>p l. calculateWinner b = \<lparr>winner = Some p, line = Some l\<rparr>)
   \<or> calculateWinner b = \<lparr>winner = None, line = None\<rparr>"
proof (cases "find (lineWins b) LINES")
  case None
  then show ?thesis by (simp add: calculateWinner_def scanLines_find)
next
  case (Some ln)
  then have "lineWins b ln" by (auto simp: find_Some_iff)
  then obtain p where "cellAt b (fst ln) = Some p"
    by (cases ln) (auto simp: lineWins_def)
  with Some show ?thesis by (simp add: calculateWinner_def scanLines_find)
qed

lemma winner_None_iff:
  "winner (calculateWinner b) = None \<longleftrightarrow> calculateWinner b = \<lparr>winner = None, line = None\<rparr>"
  using calculateWinner_shape [of b] by auto

text \<open>
  C1, as amended. On a board of nine cells, \<open>calculateWinner\<close> returns the mark \<open>p\<close>
  with the line \<open>l\<close> exactly when \<open>l\<close> is the index triple of the first line of
  \<open>LINES\<close> (rows, then columns, then diagonals) that is complete for some mark, and
  \<open>p\<close> is the mark of that line; a complete line of a mark that comes after a complete
  line of the other mark is not reported. It returns no winner exactly when no line is
  complete, and these are its only two results.
\<close>

theorem calculateWinner_first_full_line:
  assumes "length b = 9"
  shows "(calculateWinner b = \<lparr>winner = Some p, line = Some l\<rparr> \<longleftrightarrow>
            (\<exists>n<length LINES. l = indices (LINES ! n) \<and> fullLine b p (LINES ! n)
               \<and> (\<forall>n'<n. \<forall>q. \<not> fullLine b q (LINES ! n'))))
       \<and> (calculateWinner b = \<lparr>winner = None, line = None\<rparr> \<longleftrightarrow>
            (\<forall>ln\<in>set LINES. \<forall>q. \<not> fullLine b q ln))
       \<and> ((\<exists>q l'. calculateWinner b = \<lparr>winner = Some q, line = Some l'\<rparr>)
            \<or> calculateWinner b = \<lparr>winner = None, line = None\<rparr>)
       \<and> LINES = [(0, 1, 2), (3, 4, 5), (6, 7, 8), (0, 3, 6), (1, 4, 7), (2, 5, 8),
                   (0, 4, 8), (2, 4, 6)]"
proof (intro conjI)
  show "calculateWinner b = \<lparr>winner = Some p, line = Some l\<rparr> \<longleftrightarrow>
      (\<exists>n<length LINES. l = indices (LINES ! n) \<and> fullLine b p (LINES ! n)
         \<and> (\<forall>n'<n. \<forall>q. \<not> fullLine b q (LINES ! n')))"
    by (rule calculateWinner_Some_iff [OF assms])
  show "calculateWinner b = \<lparr>winner = None, line = None\<rparr> \<longleftrightarrow>
      (\<forall>ln\<in>set LINES. \<forall>q. \<not> fullLine b q ln)"
    by (rule calculateWinner_None_iff [OF assms])
  show "(\<exists>q l'. calculateWinner b = \<lparr>winner = Some q, line = Some l'\<rparr>)
      \<or> calculateWinner b = \<lparr>winner = None, line = None\<rparr>"
    by (rule calculateWinner_shape)
  show "LINES = [(0, 1, 2), (3, 4, 5), (6, 7, 8), (0, 3, 6), (1, 4, 7), (2, 5, 8),
      (0, 4, 8), (2, 4, 6)]"
    by (simp add: LINES_def)
qed

theorem calculateWinner_first_full_line_witness:
  "length [Some X_mark, None, Some X_mark, Some O_mark, Some O_mark, Some O_mark,
           None, Some X_mark, None] = 9
   \<and> calculateWinner [Some X_mark, None, Some X_mark, Some O_mark, Some O_mark, Some O_mark,
           None, Some X_mark, None]
     = \<lparr>winner = Some O_mark, line = Some [3, 4, 5]\<rparr>"
proof -
  let ?b = "[Some X_mark, None, Some X_mark, Some O_mark, Some O_mark, Some O_mark,
           None, Some X_mark, None]"
  have len: "length ?b = 9" by simp
  have "[3, 4, 5] = indices (LINES ! 1) \<and> fullLine ?b O_mark (LINES ! 1)
      \<and> (\<forall>n'<1. \<forall>q. \<not> fullLine ?b q (LINES ! n'))"
    by (simp add: LINES_def indices_def fullLine_def)
  moreover have "1 < length LINES" by (simp add: LINES_def)
  ultimately have "\<exists>n<length LINES. [3, 4, 5] = indices (LINES ! n)
      \<and> fullLine ?b O_mark (LINES ! n) \<and> (\<forall>n'<n. \<forall>q. \<not> fullLine ?b q (LINES ! n'))"
    by blast
  with calculateWinner_first_full_line [OF len, of O_mark "[3, 4, 5]"]
  have "calculateWinner ?b = \<lparr>winner = Some O_mark, line = Some [3, 4, 5]\<rparr>"
    by blast
  with len show ?thesis by blast
qed

text \<open>
  C1 as stated fails on a board with a complete line of each mark: the row 3-4-5 holds
  \<open>O\<close> three times, and the winner returned is \<open>X\<close>, with the row 0-1-2 scanned first.
\<close>

theorem calculateWinner_other_mark_counterexample:
  "length [Some X_mark, Some X_mark, Some X_mark, Some O_mark, Some O_mark, Some O_mark,
           None, None, None] = 9
   \<and> (3, 4, 5) \<in> set LINES
   \<and> fullLine [Some X_mark, Some X_mark, Some X_mark, Some O_mark, Some O_mark, Some O_mark,
           None, None, None] O_mark (3, 4, 5)
   \<and> calculateWinner [Some X_mark, Some X_mark, Some X_mark, Some O_mark, Some O_mark,
           Some O_mark, None, None, None]
     = \<lparr>winner = Some X_mark, line = Some [0, 1, 2]\<rparr>
   \<and> winner (calculateWinner [Some X_mark, Some X_mark, Some X_mark, Some O_mark, Some O_mark,
           Some O_mark, None, None, None]) \<noteq> Some O_mark"
  by (simp add: LINES_def fullLine_def calculateWinner_def cellAt_def)

subsection \<open>Draws\<close>

lemma availableMoves_empty_iff: "availableMoves b = [] \<longleftrightarrow> None \<notin> set b"
  by (auto simp: availableMoves_def filter_empty_conv cellAt_def in_set_conv_nth)

text \<open>
  C5. On a board of nine cells, \<open>isDraw\<close> holds exactly when \<open>calculateWinner\<close>
  returns no winner and no cell is empty; no cell is empty exactly when
  \<open>availableMoves\<close> is empty.
\<close>

theorem isDraw_iff:
  assumes "length b = 9"
  shows "(isDraw b \<longleftrightarrow> calculateWinner b = \<lparr>winner = None, line = None\<rparr> \<and> None \<notin> set b)
       \<and> (None \<notin> set b \<longleftrightarrow> availableMoves b = [])"
  by (simp add: isDraw_def winner_None_iff availableMoves_empty_iff)

theorem isDraw_iff_witness:
  "length [Some X_mark, Some O_mark, Some X_mark, Some X_mark, Some O_mark, Some O_mark,
           Some O_mark, Some X_mark, Some X_mark] = 9
   \<and> isDraw [Some X_mark, Some O_mark, Some X_mark, Some X_mark, Some O_mark, Some O_mark,
           Some O_mark, Some X_mark, Some X_mark]
   \<and> \<not> isDraw [Some X_mark, Some O_mark, Some X_mark, Some X_mark, Some O_mark, Some O_mark,
           Some O_mark, Some X_mark, None]"
proof -
  let ?b = "[Some X_mark, Some O_mark, Some X_mark, Some X_mark, Some O_mark, Some O_mark,
           Some O_mark, Some X_mark, Some X_mark]"
  let ?c = "[Some X_mark, Some O_mark, Some X_mark, Some X_mark, Some O_mark, Some O_mark,
           Some O_mark, Some X_mark, None]"
  have len: "length ?b = 9" "length ?c = 9" by simp_all
  have "calculateWinner ?b = \<lparr>winner = None, line = None\<rparr> \<and> None \<notin> set ?b"
    by (simp add: calculateWinner_def LINES_def cellAt_def)
  with isDraw_iff [OF len(1)] have "isDraw ?b" by blast
  moreover have "None \<in> set ?c" by simp
  with isDraw_iff [OF len(2)] have "\<not> isDraw ?c" by blast
  ultimately show ?thesis using len by blast
qed

subsection \<open>The computer's move\<close>

lemma set_availableMoves: "set (availableMoves b) = {i. i < length b \<and> b ! i = None}"
  by (auto simp: availableMoves_def cellAt_def)

lemma setCell_in_range: "i < length b \<Longrightarrow> setCell b i p = b[i := Some p]"
  by (simp add: setCell_def)

lemma tryMoves_find:
  "tryMoves b p ms = find (\<lambda>m. winner (calculateWinner (setCell b m p)) = Some p) ms"
  by (induction ms) simp_all

lemma tryMoves_Some_mem: "tryMoves b p ms = Some m \<Longrightarrow> m \<in> set ms"
  by (auto simp: tryMoves_find find_Some_iff)

lemma tryMoves_None_iff:
  "tryMoves b p ms = None \<longleftrightarrow>
     (\<forall>m\<in>set ms. winner (calculateWinner (setCell b m p)) \<noteq> Some p)"
  by (auto simp: tryMoves_find find_None_iff)

lemma tryMoves_unique:
  assumes "m \<in> set ms" and "winner (calculateWinner (setCell b m p)) = Some p"
    and "\<forall>m'\<in>set ms. winner (calculateWinner (setCell b m' p)) = Some p \<longrightarrow> m' = m"
  shows "tryMoves b p ms = Some m"
proof (cases "tryMoves b p ms")
  case None
  with assms(1,2) show ?thesis by (auto simp: tryMoves_None_iff)
next
  case (Some m')
  then have "m' \<in> set ms" and "winner (calculateWinner (setCell b m' p)) = Some p"
    by (auto simp: tryMoves_find find_Some_iff)
  with assms(3) Some show ?thesis by simp
qed

lemma itemAt_pick:
  assumes "xs \<noteq> []" and "\<forall>n>0. pick n < n"
  shows "\<exists>m\<in>set xs. itemAt xs (pick (length xs)) = Some m"
proof -
  from assms have "pick (length xs) < length xs" by simp
  then show ?thesis by (auto simp: itemAt_def)
qed

lemma aiMove_none: "availableMoves b = [] \<Longrightarrow> aiMove pick b p = None"
  by (simp add: aiMove_def)

lemma aiMove_some:
  assumes len: "length b = 9" and pk: "\<forall>n>0. pick n < n" and ne: "availableMoves b \<noteq> []"
  shows "\<exists>m\<in>set (availableMoves b). aiMove pick b p = Some m"
proof -
  define human where "human = (if p = X_mark then O_mark else X_mark)"
  define moves where "moves = availableMoves b"
  define corners where "corners = filter (\<lambda>i. cellAt b i = None) [0, 2, 6, 8]"
  define sides where "sides = filter (\<lambda>i. cellAt b i = None) [1, 3, 5, 7]"
  have unfold: "aiMove pick b p =
     (case tryMoves b p moves of
        Some m \<Rightarrow> Some m
      | None \<Rightarrow>
          (case tryMoves b human moves of
             Some m \<Rightarrow> Some m
           | None \<Rightarrow>
               if cellAt b 4 = None then Some 4
               else if corners \<noteq> [] then itemAt corners (pick (length corners))
               else if sides \<noteq> [] then itemAt sides (pick (length sides))
               else itemAt moves 0))"
    unfolding human_def moves_def corners_def sides_def
    by (simp only: aiMove_def Let_def length_0_conv ne if_False)
  have sub: "i \<in> set moves" if "i < 9" and "cellAt b i = None" for i
    using that len by (simp add: moves_def set_availableMoves cellAt_def)
  have corners: "set corners \<subseteq> set moves"
    unfolding corners_def using sub by auto
  have sides: "set sides \<subseteq> set moves"
    unfolding sides_def using sub by auto
  have "\<exists>m\<in>set moves. aiMove pick b p = Some m"
  proof (cases "tryMoves b p moves")
    case (Some m)
    with tryMoves_Some_mem [OF Some] show ?thesis
      by (simp add: unfold)
  next
    case win: None
    show ?thesis
    proof (cases "tryMoves b human moves")
      case (Some m)
      with win tryMoves_Some_mem [OF Some] show ?thesis
        by (simp add: unfold)
    next
      case block: None
      show ?thesis
      proof (cases "cellAt b 4 = None")
        case True
        with sub [of 4] have "4 \<in> set moves" by simp
        with win block True show ?thesis
          by (simp add: unfold)
      next
        case centre: False
        show ?thesis
        proof (cases "corners = []")
          case False
          from itemAt_pick [OF False pk] corners
          obtain m where "m \<in> set moves" "itemAt corners (pick (length corners)) = Some m"
            by blast
          with win block centre False show ?thesis
            by (simp add: unfold del: not_None_eq)
        next
          case nocorner: True
          show ?thesis
          proof (cases "sides = []")
            case False
            from itemAt_pick [OF False pk] sides
            obtain m where "m \<in> set moves" "itemAt sides (pick (length sides)) = Some m"
              by blast
            with win block centre nocorner False show ?thesis
              by (simp add: unfold del: not_None_eq)
          next
            case True
            from ne have "moves ! 0 \<in> set moves" "itemAt moves 0 = Some (moves ! 0)"
              by (simp_all add: itemAt_def moves_def)
            with win block centre nocorner True show ?thesis
              by (simp add: unfold del: not_None_eq)
          qed
        qed
      qed
    qed
  qed
  then show ?thesis by (simp add: moves_def)
qed

lemma setCell_available:
  "i \<in> set (availableMoves b) \<Longrightarrow> setCell b i q = b[i := Some q]"
  by (simp add: set_availableMoves setCell_in_range)

text \<open>
  C2. On a board of nine cells, with \<open>pick n < n\<close> for every \<open>0 < n\<close> (what
  \<open>Math.floor(Math.random() * n)\<close> gives), \<open>aiMove\<close> returns \<open>null\<close> exactly when
  \<open>availableMoves\<close> is empty, and otherwise returns a member of \<open>availableMoves\<close>,
  which is the index of an empty cell of the board.
\<close>

theorem aiMove_available:
  assumes "length b = 9" and "\<forall>n>0. pick n < n"
  shows "(aiMove pick b p = None \<longleftrightarrow> availableMoves b = [])
       \<and> (availableMoves b \<noteq> [] \<longrightarrow>
            (\<exists>m\<in>set (availableMoves b). aiMove pick b p = Some m \<and> m < 9 \<and> b ! m = None))"
proof (cases "availableMoves b = []")
  case True
  then show ?thesis by (simp add: aiMove_none)
next
  case False
  from aiMove_some [OF assms False, of p]
  obtain m where m: "m \<in> set (availableMoves b)" "aiMove pick b p = Some m"
    by blast
  then have "m < 9 \<and> b ! m = None"
    using assms(1) by (simp add: set_availableMoves)
  with m False show ?thesis by auto
qed

theorem aiMove_available_witness:
  "length [None, None, None, None, Some X_mark, None, None, None, None] = 9
   \<and> availableMoves [None, None, None, None, Some X_mark, None, None, None, None]
       = [0, 1, 2, 3, 5, 6, 7, 8]
   \<and> aiMove (\<lambda>n. n - 1) [None, None, None, None, Some X_mark, None, None, None, None] O_mark
       = Some 8
   \<and> aiMove (\<lambda>n. n - 1) [Some X_mark, Some O_mark, Some X_mark, Some X_mark, Some O_mark,
        Some O_mark, Some O_mark, Some X_mark, Some X_mark] O_mark = None"
proof -
  let ?b = "[None, None, None, None, Some X_mark, None, None, None, None]"
  let ?full = "[Some X_mark, Some O_mark, Some X_mark, Some X_mark, Some O_mark,
        Some O_mark, Some O_mark, Some X_mark, Some X_mark]"
  have len: "length ?b = 9" "length ?full = 9" by simp_all
  have pk: "\<forall>n>0. (\<lambda>n::nat. n - 1) n < n" by simp
  have mv: "availableMoves ?b = [0, 1, 2, 3, 5, 6, 7, 8]" by code_simp
  have "availableMoves ?full = []" by code_simp
  with aiMove_available [OF len(2) pk, of O_mark]
  have none: "aiMove (\<lambda>n. n - 1) ?full O_mark = None" by blast
  from mv have "availableMoves ?b \<noteq> []" by simp
  with aiMove_available [OF len(1) pk, of O_mark]
  obtain m where "m \<in> set (availableMoves ?b)" "aiMove (\<lambda>n. n - 1) ?b O_mark = Some m"
    by blast
  moreover have "aiMove (\<lambda>n. n - 1) ?b O_mark = Some 8" by code_simp
  ultimately show ?thesis using len mv none by simp
qed

text \<open>
  C3. When exactly one available move \<open>m\<close> is such that the computer's mark placed at
  \<open>m\<close> makes \<open>calculateWinner\<close> report the computer's mark, \<open>aiMove\<close> returns \<open>m\<close>,
  whatever the random source.
\<close>

theorem aiMove_takes_win:
  assumes "m \<in> set (availableMoves b)"
    and "winner (calculateWinner (b[m := Some p])) = Some p"
    and "\<forall>m'\<in>set (availableMoves b).
           winner (calculateWinner (b[m' := Some p])) = Some p \<longrightarrow> m' = m"
  shows "aiMove pick b p = Some m"
proof -
  have "winner (calculateWinner (setCell b m p)) = Some p"
    using assms(1,2) by (simp add: setCell_available)
  moreover have "\<forall>m'\<in>set (availableMoves b).
      winner (calculateWinner (setCell b m' p)) = Some p \<longrightarrow> m' = m"
    using assms(3) by (simp add: setCell_available)
  ultimately have "tryMoves b p (availableMoves b) = Some m"
    using assms(1) by (intro tryMoves_unique)
  moreover from assms(1) have "availableMoves b \<noteq> []" by auto
  ultimately show ?thesis by (simp add: aiMove_def)
qed

theorem aiMove_takes_win_witness:
  "availableMoves [Some X_mark, Some X_mark, None, Some O_mark, Some O_mark, None,
                   None, None, None] = [2, 5, 6, 7, 8]
   \<and> aiMove (\<lambda>n. 0) [Some X_mark, Some X_mark, None, Some O_mark, Some O_mark, None,
                   None, None, None] O_mark = Some 5"
proof -
  let ?b = "[Some X_mark, Some X_mark, None, Some O_mark, Some O_mark, None,
                   None, None, None]"
  have mv: "availableMoves ?b = [2, 5, 6, 7, 8]" by code_simp
  have h1: "5 \<in> set (availableMoves ?b)" by (simp add: mv)
  have h2: "winner (calculateWinner (?b[5 := Some O_mark])) = Some O_mark"
    by (simp add: calculateWinner_def LINES_def cellAt_def)
  have h3: "\<forall>m'\<in>set (availableMoves ?b).
      winner (calculateWinner (?b[m' := Some O_mark])) = Some O_mark \<longrightarrow> m' = 5"
    by (simp add: mv calculateWinner_def LINES_def cellAt_def)
  from aiMove_takes_win [OF h1 h2 h3] mv show ?thesis by simp
qed

text \<open>
  C4. When no available move makes the computer's mark win, and exactly one available
  move \<open>m\<close> is such that the other mark placed at \<open>m\<close> makes \<open>calculateWinner\<close>
  report that other mark, \<open>aiMove\<close> returns \<open>m\<close>, the blocking cell.
\<close>

theorem aiMove_blocks:
  assumes "human = (if p = X_mark then O_mark else X_mark)"
    and "\<forall>m'\<in>set (availableMoves b). winner (calculateWinner (b[m' := Some p])) \<noteq> Some p"
    and "m \<in> set (availableMoves b)"
    and "winner (calculateWinner (b[m := Some human])) = Some human"
    and "\<forall>m'\<in>set (availableMoves b).
           winner (calculateWinner (b[m' := Some human])) = Some human \<longrightarrow> m' = m"
  shows "aiMove pick b p = Some m"
proof -
  have "tryMoves b p (availableMoves b) = None"
    using assms(2) by (simp add: tryMoves_None_iff setCell_available)
  moreover have "winner (calculateWinner (setCell b m human)) = Some human"
    using assms(3,4) by (simp add: setCell_available)
  moreover have "\<forall>m'\<in>set (availableMoves b).
      winner (calculateWinner (setCell b m' human)) = Some human \<longrightarrow> m' = m"
    using assms(5) by (simp add: setCell_available)
  then have "tryMoves b human (availableMoves b) = Some m"
    using assms(3) calculation(2) by (intro tryMoves_unique)
  moreover from assms(3) have "availableMoves b \<noteq> []" by auto
  ultimately show ?thesis using assms(1) by (simp add: aiMove_def)
qed

theorem aiMove_blocks_witness:
  "availableMoves [Some X_mark, Some X_mark, None, None, Some O_mark, None,
                   None, None, None] = [2, 3, 5, 6, 7, 8]
   \<and> aiMove (\<lambda>n. 0) [Some X_mark, Some X_mark, None, None, Some O_mark, None,
                   None, None, None] O_mark = Some 2"
proof -
  let ?b = "[Some X_mark, Some X_mark, None, None, Some O_mark, None,
                   None, None, None]"
  have mv: "availableMoves ?b = [2, 3, 5, 6, 7, 8]" by code_simp
  have h1: "X_mark = (if O_mark = X_mark then O_mark else X_mark)" by simp
  have h2: "\<forall>m'\<in>set (availableMoves ?b).
      winner (calculateWinner (?b[m' := Some O_mark])) \<noteq> Some O_mark"
    by (simp add: mv calculateWinner_def LINES_def cellAt_def)
  have h3: "2 \<in> set (availableMoves ?b)" by (simp add: mv)
  have h4: "winner (calculateWinner (?b[2 := Some X_mark])) = Some X_mark"
    by (simp add: calculateWinner_def LINES_def cellAt_def)
  have h5: "\<forall>m'\<in>set (availableMoves ?b).
      winner (calculateWinner (?b[m' := Some X_mark])) = Some X_mark \<longrightarrow> m' = 2"
    by (simp add: mv calculateWinner_def LINES_def cellAt_def)
  from aiMove_blocks [OF h1 h2 h3 h4 h5] mv show ?thesis by simp
qed

subsection \<open>Status and terminal states\<close>

lemma status_InProgress_iff:
  "status s = InProgress \<longleftrightarrow>
     winner (calculateWinner (cells (board s))) = None \<and> \<not> isDraw (cells (board s))"
  by (simp add: status_def split: option.splits)

lemma terminal_handlePlay: "status s \<noteq> InProgress \<Longrightarrow> handlePlay index s = s"
  by (auto simp: status_InProgress_iff handlePlay_def)

lemma terminal_aiTurn: "status s \<noteq> InProgress \<Longrightarrow> aiTurn pick s = s"
  by (auto simp: status_InProgress_iff aiTurn_def)

lemma terminal_step: "status s \<noteq> InProgress \<Longrightarrow> step pick s e = s"
  by (cases e) (simp_all add: terminal_handlePlay terminal_aiTurn)

lemma terminal_run: "status s \<noteq> InProgress \<Longrightarrow> run pick s evs = s"
  unfolding run_def by (induction evs) (simp_all add: terminal_step)

lemma replicate_nine: "replicate 9 x = [x, x, x, x, x, x, x, x, x]"
  by (simp add: eval_nat_numeral)

lemmas eval_defs =
  status_def isDraw_def calculateWinner_def LINES_def cellAt_def availableMoves_def

subsection \<open>Moves on occupied cells\<close>

text \<open>
  C6. In a session whose status is \<open>InProgress\<close>, a move requested on a cell 0-8 that is
  already occupied is ignored by \<open>handlePlay\<close>: the board and the player to move stay
  as they are (the whole session does).
\<close>

theorem handlePlay_occupied:
  assumes "status s = InProgress" and "0 \<le> index" and "index \<le> 8"
    and "length (cells (board s)) = 9" and "cells (board s) ! nat index \<noteq> None"
  shows "board (handlePlay index s) = board s
    \<and> xIsNext (handlePlay index s) = xIsNext s
    \<and> handlePlay index s = s"
proof -
  from assms have "arrayGet (board s) index \<noteq> None"
    by (simp add: arrayGet_def isArrayIndex_def cellAt_def)
  then have "handlePlay index s = s"
    by (simp add: handlePlay_def)
  then show ?thesis by simp
qed

theorem handlePlay_occupied_witness:
  "status \<lparr>mode = PVP,
      board = \<lparr>cells = [Some X_mark, None, None, None, None, None, None, None, None],
               props = Map.empty\<rparr>,
      xIsNext = False, aiPlays = O_mark\<rparr> = InProgress
   \<and> handlePlay 0 \<lparr>mode = PVP,
      board = \<lparr>cells = [Some X_mark, None, None, None, None, None, None, None, None],
               props = Map.empty\<rparr>,
      xIsNext = False, aiPlays = O_mark\<rparr>
     = \<lparr>mode = PVP,
      board = \<lparr>cells = [Some X_mark, None, None, None, None, None, None, None, None],
               props = Map.empty\<rparr>,
      xIsNext = False, aiPlays = O_mark\<rparr>"
proof -
  let ?s = "\<lparr>mode = PVP,
      board = \<lparr>cells = [Some X_mark, None, None, None, None, None, None, None, None],
               props = Map.empty\<rparr>,
      xIsNext = False, aiPlays = O_mark\<rparr>"
  have st: "status ?s = InProgress"
    by (simp add: eval_defs)
  have "handlePlay 0 ?s = ?s"
    using handlePlay_occupied [of ?s 0, OF st] by simp
  with st show ?thesis by simp
qed

subsection \<open>Moves outside the nine squares\<close>

lemma arrayGet_beyond:
  assumes "length (cells a) = 9" and "9 \<le> i" and "i < 4294967295"
  shows "arrayGet a i = None"
proof -
  from assms have "\<not> nat i < length (cells a)" by linarith
  with assms show ?thesis
    by (simp add: arrayGet_def isArrayIndex_def cellAt_def)
qed

lemma arraySet_beyond:
  assumes "length (cells a) = 9" and "9 \<le> i" and "i < 4294967295"
  shows "arraySet (spread a) i p =
    \<lparr>cells = cells a @ replicate (nat i - 9) None @ [Some p], props = Map.empty\<rparr>"
proof -
  from assms have "\<not> nat i < length (cells a)" and "nat i < 4294967295" by linarith+
  then have "setCell (cells a) (nat i) p = cells a @ replicate (nat i - 9) None @ [Some p]"
    using assms(1) by (simp add: setCell_def)
  with assms show ?thesis
    by (simp add: arraySet_def spread_def isArrayIndex_def)
qed

lemma arrayGet_property:
  assumes "i < 0 \<or> 4294967295 \<le> i"
  shows "arrayGet a i = props a i"
  using assms by (auto simp: arrayGet_def isArrayIndex_def)

lemma arraySet_property:
  assumes "i < 0 \<or> 4294967295 \<le> i"
  shows "arraySet (spread a) i p = \<lparr>cells = cells a, props = [i \<mapsto> p]\<rparr>"
  using assms by (auto simp: arraySet_def spread_def isArrayIndex_def)

text \<open>
  C7, as amended. Nothing in \<open>handlePlay\<close> checks the range of the index (only the nine
  squares call it). On a board of nine cells and for every integer index outside 0-8, no
  exception is raised, and the session is left as it is when the game is over, when in
  AI mode it is the computer's turn, or when the array already has a property under that
  index (which an index below 0 or from \<open>2^32 - 1\<close> on can have). Otherwise the request
  is not rejected and the player to move flips: for an index from 9 to \<open>2^32 - 2\<close> the
  mark of the player to move is written at that index, the new array having
  \<open>index + 1\<close> cells; for an index below 0 or from \<open>2^32 - 1\<close> on the nine cells, and
  so the length 9, stay as they are and the mark is stored as a property of the new
  array.
\<close>

theorem handlePlay_outside_squares:
  assumes "length (cells (board s)) = 9" and "index < 0 \<or> 8 < index"
  shows "handlePlay index s =
     (if status s \<noteq> InProgress
         \<or> (mode s = AI \<and> currentPlayer s = aiPlays s)
         \<or> ((index < 0 \<or> 4294967295 \<le> index) \<and> props (board s) index \<noteq> None)
      then s
      else if 9 \<le> index \<and> index < 4294967295
      then s\<lparr>board :=
               \<lparr>cells = cells (board s) @ replicate (nat index - 9) None
                          @ [Some (currentPlayer s)],
                props = Map.empty\<rparr>,
             xIsNext := \<not> xIsNext s\<rparr>
      else s\<lparr>board := \<lparr>cells = cells (board s), props = [index \<mapsto> currentPlayer s]\<rparr>,
             xIsNext := \<not> xIsNext s\<rparr>)"
proof (cases "9 \<le> index \<and> index < 4294967295")
  case True
  with assms(1) have "arrayGet (board s) index = None"
    and "arraySet (spread (board s)) index (currentPlayer s) =
      \<lparr>cells = cells (board s) @ replicate (nat index - 9) None @ [Some (currentPlayer s)],
       props = Map.empty\<rparr>"
    by (simp_all add: arrayGet_beyond arraySet_beyond)
  with True show ?thesis
    by (simp add: handlePlay_def status_InProgress_iff)
next
  case False
  with assms(2) have out: "index < 0 \<or> 4294967295 \<le> index" by auto
  then have "arrayGet (board s) index = props (board s) index"
    and "arraySet (spread (board s)) index (currentPlayer s) =
      \<lparr>cells = cells (board s), props = [index \<mapsto> currentPlayer s]\<rparr>"
    by (simp_all add: arrayGet_property arraySet_property)
  with out show ?thesis
    unfolding if_not_P [OF False]
    by (simp add: handlePlay_def status_InProgress_iff)
qed

theorem handlePlay_outside_squares_witness:
  "handlePlay 11
      \<lparr>mode = AI,
       board = \<lparr>cells = [None, None, None, None, None, None, None, None, None],
                props = Map.empty\<rparr>,
       xIsNext = True, aiPlays = O_mark\<rparr>
     = \<lparr>mode = AI,
        board = \<lparr>cells = [None, None, None, None, None, None, None, None, None, None, None,
                          Some X_mark],
                 props = Map.empty\<rparr>,
        xIsNext = False, aiPlays = O_mark\<rparr>
   \<and> handlePlay (- 1)
      \<lparr>mode = AI,
       board = \<lparr>cells = [None, None, None, None, None, None, None, None, None],
                props = Map.empty\<rparr>,
       xIsNext = True, aiPlays = O_mark\<rparr>
     = \<lparr>mode = AI,
        board = \<lparr>cells = [None, None, None, None, None, None, None, None, None],
                 props = [- 1 \<mapsto> X_mark]\<rparr>,
        xIsNext = False, aiPlays = O_mark\<rparr>
   \<and> handlePlay 4294967295
      \<lparr>mode = AI,
       board = \<lparr>cells = [None, None, None, None, None, None, None, None, None],
                props = Map.empty\<rparr>,
       xIsNext = True, aiPlays = O_mark\<rparr>
     = \<lparr>mode = AI,
        board = \<lparr>cells = [None, None, None, None, None, None, None, None, None],
                 props = [4294967295 \<mapsto> X_mark]\<rparr>,
        xIsNext = False, aiPlays = O_mark\<rparr>
   \<and> handlePlay (- 1)
      \<lparr>mode = PVP,
       board = \<lparr>cells = [None, None, None, None, None, None, None, None, None],
                props = [- 1 \<mapsto> X_mark]\<rparr>,
       xIsNext = False, aiPlays = O_mark\<rparr>
     = \<lparr>mode = PVP,
        board = \<lparr>cells = [None, None, None, None, None, None, None, None, None],
                 props = [- 1 \<mapsto> X_mark]\<rparr>,
        xIsNext = False, aiPlays = O_mark\<rparr>"
proof -
  let ?s = "\<lparr>mode = AI,
       board = \<lparr>cells = [None, None, None, None, None, None, None, None, None],
                props = Map.empty\<rparr>,
       xIsNext = True, aiPlays = O_mark\<rparr>"
  let ?t = "\<lparr>mode = PVP,
       board = \<lparr>cells = [None, None, None, None, None, None, None, None, None],
                props = [- 1 \<mapsto> X_mark]\<rparr>,
       xIsNext = False, aiPlays = O_mark\<rparr>"
  have len: "length (cells (board ?s)) = 9" "length (cells (board ?t)) = 9" by simp_all
  have st: "status ?s = InProgress" "status ?t = InProgress" by (simp_all add: eval_defs)
  have i1: "(11::int) < 0 \<or> 8 < (11::int)" by simp
  have i2: "(- 1::int) < 0 \<or> 8 < (- 1::int)" by simp
  have i3: "(4294967295::int) < 0 \<or> 8 < (4294967295::int)" by simp
  have "handlePlay 11 ?s = \<lparr>mode = AI,
        board = \<lparr>cells = [None, None, None, None, None, None, None, None, None, None, None,
                          Some X_mark],
                 props = Map.empty\<rparr>,
        xIsNext = False, aiPlays = O_mark\<rparr>"
    using handlePlay_outside_squares [OF len(1) i1] st(1)
    by (simp add: currentPlayer_def numeral_2_eq_2)
  moreover have "handlePlay (- 1) ?s = \<lparr>mode = AI,
        board = \<lparr>cells = [None, None, None, None, None, None, None, None, None],
                 props = [- 1 \<mapsto> X_mark]\<rparr>,
        xIsNext = False, aiPlays = O_mark\<rparr>"
    using handlePlay_outside_squares [OF len(1) i2] st(1)
    by (simp add: currentPlayer_def)
  moreover have "handlePlay 4294967295 ?s = \<lparr>mode = AI,
        board = \<lparr>cells = [None, None, None, None, None, None, None, None, None],
                 props = [4294967295 \<mapsto> X_mark]\<rparr>,
        xIsNext = False, aiPlays = O_mark\<rparr>"
    using handlePlay_outside_squares [OF len(1) i3] st(1)
    by (simp add: currentPlayer_def)
  moreover have "handlePlay (- 1) ?t = ?t"
    using handlePlay_outside_squares [OF len(2) i2] st(2)
    by simp
  ultimately show ?thesis by blast
qed

text \<open>
  C7 as stated fails in the initial session. A move requested at index 9 is accepted:
  the board has ten cells afterwards and it is the other player's turn. A move requested
  at index -1 is accepted too: the nine cells stay as they are, but the player to move
  flips.
\<close>

theorem handlePlay_out_of_range_counterexample:
  "initial = \<lparr>mode = AI,
       board = \<lparr>cells = [None, None, None, None, None, None, None, None, None],
                props = Map.empty\<rparr>,
       xIsNext = True, aiPlays = O_mark\<rparr>
   \<and> status initial = InProgress
   \<and> xIsNext initial
   \<and> cells (board (handlePlay 9 initial))
       = [None, None, None, None, None, None, None, None, None, Some X_mark]
   \<and> length (cells (board (handlePlay 9 initial))) = 10
   \<and> \<not> xIsNext (handlePlay 9 initial)
   \<and> cells (board (handlePlay (- 1) initial))
       = [None, None, None, None, None, None, None, None, None]
   \<and> \<not> xIsNext (handlePlay (- 1) initial)"
  by (simp add: eval_defs handlePlay_def arrayGet_def arraySet_def spread_def
      isArrayIndex_def setCell_def currentPlayer_def initial_def replicate_nine)

subsection \<open>Terminal states\<close>

text \<open>
  C8. In a session whose status is terminal (\<open>Won p\<close> or \<open>Draw\<close>), a move request at any
  index and a computer turn both leave the whole session (board, player to move, mode,
  computer's mark) as it is, and so does every sequence of such requests: only the
  handlers of the reset family, which are not events of \<open>run\<close>, leave a terminal state.
\<close>

theorem terminal_state_absorbing:
  assumes "status s = Won p \<or> status s = Draw"
  shows "handlePlay index s = s \<and> aiTurn pick s = s \<and> run pick s evs = s"
proof -
  from assms have "status s \<noteq> InProgress" by auto
  then show ?thesis
    by (simp add: terminal_handlePlay terminal_aiTurn terminal_run)
qed

theorem terminal_state_absorbing_witness:
  "status \<lparr>mode = AI,
      board = \<lparr>cells = [Some X_mark, Some X_mark, Some X_mark, Some O_mark, Some O_mark,
                        None, None, None, None],
               props = Map.empty\<rparr>,
      xIsNext = False, aiPlays = O_mark\<rparr> = Won X_mark
   \<and> run (\<lambda>n. 0) \<lparr>mode = AI,
      board = \<lparr>cells = [Some X_mark, Some X_mark, Some X_mark, Some O_mark, Some O_mark,
                        None, None, None, None],
               props = Map.empty\<rparr>,
      xIsNext = False, aiPlays = O_mark\<rparr> [ApplyMove 5, ComputerTurn, ApplyMove 8]
     = \<lparr>mode = AI,
      board = \<lparr>cells = [Some X_mark, Some X_mark, Some X_mark, Some O_mark, Some O_mark,
                        None, None, None, None],
               props = Map.empty\<rparr>,
      xIsNext = False, aiPlays = O_mark\<rparr>"
proof -
  let ?s = "\<lparr>mode = AI,
      board = \<lparr>cells = [Some X_mark, Some X_mark, Some X_mark, Some O_mark, Some O_mark,
                        None, None, None, None],
               props = Map.empty\<rparr>,
      xIsNext = False, aiPlays = O_mark\<rparr>"
  have st: "status ?s = Won X_mark"
    by (simp add: eval_defs)
  then have "status ?s = Won X_mark \<or> status ?s = Draw" ..
  from terminal_state_absorbing [OF this]
  have "run (\<lambda>n. 0) ?s [ApplyMove 5, ComputerTurn, ApplyMove 8] = ?s"
    by blast
  with st show ?thesis by simp
qed

subsection \<open>Choosing the computer's side\<close>

text \<open>
  C9. Clicking the chip of the mark the computer already plays does nothing: the
  computer's mark, the board and the player to move stay as they are, so no reset
  happens.
\<close>

theorem aiSideChip_current_mark:
  assumes "p = aiPlays s"
  shows "aiSideChip p s = s \<and> aiPlays (aiSideChip p s) = aiPlays s
    \<and> board (aiSideChip p s) = board s \<and> xIsNext (aiSideChip p s) = xIsNext s"
  using assms by (simp add: aiSideChip_def)

theorem aiSideChip_current_mark_witness:
  "aiSideChip O_mark \<lparr>mode = AI,
      board = \<lparr>cells = [Some X_mark, None, None, None, Some O_mark, None, None, None, None],
               props = Map.empty\<rparr>,
      xIsNext = True, aiPlays = O_mark\<rparr>
     = \<lparr>mode = AI,
      board = \<lparr>cells = [Some X_mark, None, None, None, Some O_mark, None, None, None, None],
               props = Map.empty\<rparr>,
      xIsNext = True, aiPlays = O_mark\<rparr>
   \<and> cells (board (resetGame \<lparr>mode = AI,
      board = \<lparr>cells = [Some X_mark, None, None, None, Some O_mark, None, None, None, None],
               props = Map.empty\<rparr>,
      xIsNext = True, aiPlays = O_mark\<rparr>))
     \<noteq> [Some X_mark, None, None, None, Some O_mark, None, None, None, None]"
proof -
  let ?s = "\<lparr>mode = AI,
      board = \<lparr>cells = [Some X_mark, None, None, None, Some O_mark, None, None, None, None],
               props = Map.empty\<rparr>,
      xIsNext = True, aiPlays = O_mark\<rparr>"
  have "O_mark = aiPlays ?s" by simp
  from aiSideChip_current_mark [OF this] have "aiSideChip O_mark ?s = ?s" by blast
  then show ?thesis by (simp add: resetGame_def replicate_nine)
qed

subsection \<open>The deferred computer move\<close>

text \<open>
  C10. When the timer's callback has selected a move and the update applies to a board
  whose cell at that move is already occupied, the board is returned as it is (the
  occupied cell is not overwritten), and the player to move is flipped all the same.
\<close>

theorem aiTimeout_occupied:
  assumes "aiMove pick b0 ai0 = Some move" and "arrayGet (board s) (int move) \<noteq> None"
  shows "board (aiTimeout pick b0 ai0 s) = board s
    \<and> xIsNext (aiTimeout pick b0 ai0 s) = (\<not> xIsNext s)"
  using assms by (simp add: aiTimeout_def)

theorem aiTimeout_occupied_witness:
  "aiMove (\<lambda>n. 0) (replicate 9 None) O_mark = Some 4
   \<and> board (aiTimeout (\<lambda>n. 0) (replicate 9 None) O_mark
        \<lparr>mode = AI,
         board = \<lparr>cells = [None, None, None, None, Some X_mark, None, None, None, None],
                  props = Map.empty\<rparr>,
         xIsNext = False, aiPlays = O_mark\<rparr>)
     = \<lparr>cells = [None, None, None, None, Some X_mark, None, None, None, None],
        props = Map.empty\<rparr>
   \<and> xIsNext (aiTimeout (\<lambda>n. 0) (replicate 9 None) O_mark
        \<lparr>mode = AI,
         board = \<lparr>cells = [None, None, None, None, Some X_mark, None, None, None, None],
                  props = Map.empty\<rparr>,
         xIsNext = False, aiPlays = O_mark\<rparr>)"
proof -
  let ?s = "\<lparr>mode = AI,
         board = \<lparr>cells = [None, None, None, None, Some X_mark, None, None, None, None],
                  props = Map.empty\<rparr>,
         xIsNext = False, aiPlays = O_mark\<rparr>"
  have mv: "aiMove (\<lambda>n. 0) (replicate 9 None) O_mark = Some 4"
    by code_simp
  have occ: "arrayGet (board ?s) (int 4) \<noteq> None"
    by (simp add: arrayGet_def isArrayIndex_def cellAt_def)
  from aiTimeout_occupied [OF mv occ] mv show ?thesis by simp
qed

end
